theory Spec2Isabelle
  imports Main "HOL-Library.Word"
begin

section \<open>Data model of CDCL.c\<close>

text \<open>
  The solver keeps its state in process-wide variables. They are collected in the record
  \<open>solver\<close> and every C function becomes a function from the state to the new state.

  Pointers are modelled by what they point to:
  \<^item> an \<open>ass_t*\<close> (a literal) is the offset of the record from \<open>model\<close>, a \<open>nat\<close>;
  \<^item> an \<open>ass_t**\<close> into the trail is an offset from \<open>trail.sequence\<close>; \<open>trail.head\<close>
    is an \<open>int\<close>, since \<open>backtrack\<close> can leave the loop with it one below the array;
  \<^item> a \<open>clause_t*\<close> is either the address \<open>cnf.clauses + i\<close> of a stored clause or the
    address of the local variable \<open>learned_clause\<close> of \<open>CDCL_repair_conflict\<close>, the only
    two clause addresses the program ever takes; \<open>NULL\<close> is \<open>None\<close>.

  A read or write outside an array, through an uninitialised pointer or through a pointer
  to an object whose lifetime has ended is undefined behaviour in C; the model returns
  \<open>Inl Undefined\<close> there. \<open>exit\<close> is modelled by the other error values.
\<close>

datatype error = Exit_SAT | Exit_UNSAT | Fatal | Undefined

text \<open>\<open>state_t\<close> comes from the header CDCL.h; the source uses these four values of it.\<close>

datatype state_t = DECIDE | PROPAGATE | CONFLICT | SUCCESS

text \<open>Assignment states, \<open>#define DECEASED 1\<close> ... \<open>#define AVAILABLE 4\<close>.\<close>

datatype ass_status_t = DECEASED | ACTIVE | PENDING | AVAILABLE

abbreviation (input) POSITIVE :: int where "POSITIVE \<equiv> 1"
abbreviation (input) NEGATIVE :: int where "NEGATIVE \<equiv> - 1"

abbreviation (input) DEC_ASS :: nat where "DEC_ASS \<equiv> 0"
abbreviation (input) PROP_ASS :: nat where "PROP_ASS \<equiv> 1"
abbreviation (input) CON_ASS :: nat where "CON_ASS \<equiv> 2"

text \<open>
  \<open>#define DEC_MAX ULONG_MAX\<close>, with \<open>unsigned long\<close> of 64 bits. The type
  \<open>dec_level_t\<close> of the decision levels comes from CDCL.h as well; it is taken to be
  \<open>unsigned long\<close>, the type of \<open>DEC_MAX\<close>, and so are the counters.
\<close>

abbreviation (input) DEC_MAX :: "64 word" where "DEC_MAX \<equiv> - 1"

datatype clause_ptr = Cnf_clause nat | Learned_local

text \<open>
  A \<open>struct mutable\<close> is a growing array; only its used part is modelled, as a list.
  A \<open>struct clause\<close> is the array \<open>lits\<close> with its length \<open>width\<close>: a list of literals.
\<close>

type_synonym mutable_t = "clause_ptr option list"
type_synonym clause_t = "nat list"

definition width :: "clause_t \<Rightarrow> nat" where
  "width c = length c"

record ass =
  ass_status :: ass_status_t
  truth_value :: int
  ass_type :: nat
  dec_level :: "64 word"
  num_active :: "64 word"
  watched_lits :: mutable_t

text \<open>
  The globals. \<open>cur_dec_level\<close> is the global \<open>dec_level\<close> (the name is taken by the
  field of \<open>ass\<close>), \<open>sequence\<close>, \<open>head\<close> and \<open>tail\<close> are the fields of \<open>trail\<close>,
  \<open>cnf\<close> is \<open>cnf.clauses\<close> (\<open>cnf.size\<close> is its length).
\<close>

record solver =
  num_vars :: nat
  model :: "ass list"
  cnf :: "clause_t list"
  learned_cnf :: mutable_t
  sequence :: "nat list"
  head :: int
  tail :: int
  cur_dec_level :: "64 word"
  state :: state_t
  num_conflicts :: "64 word"
  num_decisions :: "64 word"
  num_unit_props :: "64 word"

section \<open>Literals\<close>

text \<open>
  \<open>DIMACS_to_lit\<close> returns the pointer \<open>model + |value| - 1 + (value < 0) * num_vars\<close>;
  the model returns its offset from \<open>model\<close>.
\<close>

definition DIMACS_to_lit :: "nat \<Rightarrow> int \<Rightarrow> int" where
  "DIMACS_to_lit V val =
     (if val < 0 then - 1 else 1) * val - 1 + (if val < 0 then 1 else 0) * int V"

text \<open>
  \<open>lit_to_DIMACS\<close> computes with \<open>lit - model\<close>, a \<open>ptrdiff_t\<close> that the operators \<open>%\<close>
  and \<open><\<close> convert to \<open>unsigned long\<close> because \<open>num_vars\<close> is one; the sum is cast to
  \<open>signed long\<close> before the multiplication by the sign.
\<close>

definition to_ulong :: "int \<Rightarrow> int" where
  "to_ulong x = x mod 2 ^ 64"

definition to_long :: "int \<Rightarrow> int" where
  "to_long x = (if to_ulong x < 2 ^ 63 then to_ulong x else to_ulong x - 2 ^ 64)"

definition lit_to_DIMACS :: "nat \<Rightarrow> int \<Rightarrow> int" where
  "lit_to_DIMACS V off =
     to_long (to_ulong (to_ulong off mod int V + 1))
       * (if to_ulong off < int V then 1 else - 1)"

definition get_comp_lit :: "solver \<Rightarrow> nat \<Rightarrow> nat" where
  "get_comp_lit s lit = (if lit < num_vars s then lit + num_vars s else lit - num_vars s)"

section \<open>Clauses and mutables\<close>

definition mutable_push :: "mutable_t \<Rightarrow> clause_ptr option \<Rightarrow> mutable_t" where
  "mutable_push m datum = m @ [datum]"

text \<open>
  Reading a clause through a \<open>clause_t*\<close>. The local \<open>learned_clause\<close> only lives while
  \<open>CDCL_repair_conflict\<close> runs, and no read goes through its address there: every read
  through that address happens after the function has returned.
\<close>

definition deref :: "solver \<Rightarrow> clause_ptr \<Rightarrow> error + clause_t" where
  "deref s p =
     (case p of
        Cnf_clause i \<Rightarrow> if i < length (cnf s) then Inr (cnf s ! i) else Inl Undefined
      | Learned_local \<Rightarrow> Inl Undefined)"

definition set_lits :: "solver \<Rightarrow> clause_ptr \<Rightarrow> clause_t \<Rightarrow> solver" where
  "set_lits s p c =
     (case p of
        Cnf_clause i \<Rightarrow> s\<lparr>cnf := (cnf s)[i := c]\<rparr>
      | Learned_local \<Rightarrow> s)"

text \<open>\<open>temp = lits[i]; lits[i] = lits[j]; lits[j] = temp\<close>\<close>

definition swap_lits :: "clause_t \<Rightarrow> nat \<Rightarrow> nat \<Rightarrow> clause_t" where
  "swap_lits c i j = (let temp = c ! i in (c[i := c ! j])[j := temp])"

section \<open>Assignments\<close>

definition in_model :: "solver \<Rightarrow> nat \<Rightarrow> bool" where
  "in_model s lit \<longleftrightarrow> lit < length (model s) \<and> get_comp_lit s lit < length (model s)"

definition assign :: "solver \<Rightarrow> nat \<Rightarrow> error + solver" where
  "assign s lit =
     (let comp_lit = get_comp_lit s lit in
      if in_model s lit then
        let m1 = (model s)[lit := (model s ! lit)
                     \<lparr>truth_value := POSITIVE, dec_level := cur_dec_level s\<rparr>];
            m2 = m1[comp_lit := (m1 ! comp_lit)
                     \<lparr>truth_value := NEGATIVE, dec_level := cur_dec_level s\<rparr>]
        in Inr (s\<lparr>model := m2\<rparr>)
      else Inl Undefined)"

definition unassign :: "solver \<Rightarrow> nat \<Rightarrow> error + solver" where
  "unassign s lit =
     (let comp_lit = get_comp_lit s lit in
      if in_model s lit then
        let m1 = (model s)[lit := (model s ! lit)\<lparr>dec_level := DEC_MAX\<rparr>];
            m2 = m1[comp_lit := (m1 ! comp_lit)\<lparr>dec_level := DEC_MAX\<rparr>]
        in Inr (s\<lparr>model := m2\<rparr>)
      else Inl Undefined)"

section \<open>Trail\<close>

definition trail_queue_lit :: "solver \<Rightarrow> nat \<Rightarrow> nat \<Rightarrow> error + solver" where
  "trail_queue_lit s lit atype =
     (let comp_lit = get_comp_lit s lit in
      if in_model s lit \<and> 0 \<le> tail s \<and> tail s < int (length (sequence s)) then
        let m1 = (model s)[lit := (model s ! lit)
                     \<lparr>ass_status := PENDING, ass_type := atype\<rparr>];
            m2 = m1[comp_lit := (m1 ! comp_lit)
                     \<lparr>ass_status := PENDING, ass_type := atype\<rparr>]
        in Inr (s\<lparr>model := m2,
                  sequence := (sequence s)[nat (tail s) := lit],
                  tail := tail s + 1\<rparr>)
      else Inl Undefined)"

lemma unassign_head: "unassign s lit = Inr s1 \<Longrightarrow> head s1 = head s"
  by (auto simp: unassign_def Let_def split: if_splits)

text \<open>
  The loop of \<open>backtrack\<close>:
  \<open>while ((trail.head >= trail.sequence) && ((*(trail.head))->dec_level > new_dec_level))\<close>.
\<close>

function backtrack_loop :: "64 word \<Rightarrow> solver \<Rightarrow> error + solver" where
  "backtrack_loop new_dec_level s =
     (if 0 \<le> head s then
        if head s < int (length (sequence s))
           \<and> sequence s ! nat (head s) < length (model s) then
          if dec_level (model s ! (sequence s ! nat (head s))) > new_dec_level then
            (case unassign s (sequence s ! nat (head s)) of
               Inl e \<Rightarrow> Inl e
             | Inr s1 \<Rightarrow> backtrack_loop new_dec_level (s1\<lparr>head := head s1 - 1\<rparr>))
          else Inr s
        else Inl Undefined
      else Inr s)"
  by pat_completeness auto
termination
  by (relation "measure (\<lambda>(k, s). nat (head s + 1))") (auto dest: unassign_head)

declare backtrack_loop.simps [simp del]

definition backtrack :: "64 word \<Rightarrow> solver \<Rightarrow> error + solver" where
  "backtrack new_dec_level s =
     (case backtrack_loop new_dec_level s of
        Inl e \<Rightarrow> Inl e
      | Inr s1 \<Rightarrow>
          Inr (s1\<lparr>head := head s1 + 1, tail := head s1 + 1,
                  cur_dec_level := new_dec_level\<rparr>))"

section \<open>Propagation\<close>

text \<open>
  \<open>for (which_lit = 0; which_lit < clause->width; which_lit++) lits[which_lit]->num_active--;\<close>
\<close>

fun decrement_active :: "ass list \<Rightarrow> nat list \<Rightarrow> error + ass list" where
  "decrement_active m [] = Inr m"
| "decrement_active m (l # ls) =
     (if l < length m
      then decrement_active (m[l := (m ! l)\<lparr>num_active := num_active (m ! l) - 1\<rparr>]) ls
      else Inl Undefined)"

text \<open>
  The two places where a clause is found extinct do the same:
  \<open>data[which_clause] = NULL\<close> and the loop above. \<open>data\<close> is the array of the
  propagator's own watch list, so the write goes to \<open>propagator->watched_lits\<close>.
  (When a push onto that same list has reallocated the array in between, \<open>data\<close> is
  stale in C; the list is thrown away at the end of the step either way.)
\<close>

definition extinguish :: "solver \<Rightarrow> nat \<Rightarrow> nat \<Rightarrow> clause_t \<Rightarrow> error + solver" where
  "extinguish s propagator which_clause c =
     (let a = model s ! propagator;
          m1 = (model s)[propagator := a\<lparr>watched_lits := (watched_lits a)[which_clause := None]\<rparr>]
      in case decrement_active m1 c of
           Inl e \<Rightarrow> Inl e
         | Inr m2 \<Rightarrow> Inr (s\<lparr>model := m2\<rparr>))"

text \<open>
  The candidate loop, \<open>for (which_lit = 0; which_lit < clause->width - 2; which_lit++)\<close>,
  over the indices it runs through. It returns the state and the two flags
  \<open>clause_is_unit\<close> and \<open>clause_is_extinct\<close>.
\<close>

fun candidates ::
  "solver \<Rightarrow> nat \<Rightarrow> nat \<Rightarrow> clause_ptr \<Rightarrow> clause_t \<Rightarrow> nat list
     \<Rightarrow> error + (solver \<times> bool \<times> bool)" where
  "candidates s propagator which_clause p c [] = Inr (s, True, False)"
| "candidates s propagator which_clause p c (which_lit # rest) =
     (if c ! which_lit < length (model s) then
        if ass_status (model s ! (c ! which_lit)) = DECEASED
           \<and> truth_value (model s ! (c ! which_lit)) = POSITIVE then
          (case extinguish s propagator which_clause c of
             Inl e \<Rightarrow> Inl e
           | Inr s1 \<Rightarrow> Inr (s1, True, True))
        else if ass_status (model s ! (c ! which_lit)) = PENDING
                \<or> ass_status (model s ! (c ! which_lit)) = AVAILABLE
                \<or> (ass_status (model s ! (c ! which_lit)) = ACTIVE
                    \<and> truth_value (model s ! (c ! which_lit)) = POSITIVE) then
          (let c1 = swap_lits c 0 which_lit;
               s1 = set_lits s p c1;
               w = get_comp_lit s1 (c1 ! 0)
           in if w < length (model s1) then
                Inr (s1\<lparr>model := (model s1)[w := (model s1 ! w)
                          \<lparr>watched_lits := mutable_push (watched_lits (model s1 ! w)) (Some p)\<rparr>]\<rparr>,
                     False, False)
              else Inl Undefined)
        else candidates s propagator which_clause p c rest
      else Inl Undefined)"

text \<open>
  \<open>for (which_clause++; which_clause < num_clauses; which_clause++)
       mutable_push(&new_watchers, clause);\<close>
\<close>

function copy_unprocessed :: "mutable_t \<Rightarrow> clause_ptr \<Rightarrow> nat \<Rightarrow> nat \<Rightarrow> mutable_t" where
  "copy_unprocessed new_watchers clause which_clause num_clauses =
     (if which_clause < num_clauses
      then copy_unprocessed (mutable_push new_watchers (Some clause)) clause
             (which_clause + 1) num_clauses
      else new_watchers)"
  by pat_completeness auto
termination
  by (relation "measure (\<lambda>(nw, c, i, n). n - i)") auto

declare copy_unprocessed.simps [simp del]

text \<open>How the body of the clause loop leaves: falls through to the next clause, \<open>break\<close>,
  or \<open>return CONFLICT\<close>.\<close>

datatype control = Next | Break | Return_CONFLICT

text \<open>
  The body of \<open>for (which_clause = 0; which_clause < num_clauses; which_clause++)\<close>, in
  three parts, last part first.

  \<open>unit_found\<close> is the block under \<open>if (clause_is_unit == 1 && clause_is_extinct == 0)\<close>;
  \<open>l1\<close> is \<open>lits[1]\<close>.
\<close>

definition unit_found ::
  "solver \<Rightarrow> clause_ptr \<Rightarrow> nat \<Rightarrow> mutable_t \<Rightarrow> nat \<Rightarrow> nat
     \<Rightarrow> error + (solver \<times> mutable_t \<times> control)" where
  "unit_found s p l1 new_watchers which_clause num_clauses =
     (let s3 = s\<lparr>num_unit_props := num_unit_props s + 1\<rparr>;
          nw = mutable_push new_watchers (Some p)
      in if ass_status (model s3 ! l1) = AVAILABLE then
           (case trail_queue_lit s3 l1 PROP_ASS of
              Inl e \<Rightarrow> Inl e
            | Inr s4 \<Rightarrow> Inr (s4, nw, Next))
         else if truth_value (model s3 ! l1) = NEGATIVE then
           Inr (s3, copy_unprocessed nw p (which_clause + 1) num_clauses, Return_CONFLICT)
         else Inr (s3, nw, Next))"

text \<open>
  \<open>watch_check\<close> is the body from the test of \<open>lits[1]->dec_level\<close> on; \<open>c\<close> is the
  clause after the first swap.
\<close>

definition watch_check ::
  "solver \<Rightarrow> nat \<Rightarrow> mutable_t \<Rightarrow> nat \<Rightarrow> nat \<Rightarrow> clause_ptr \<Rightarrow> clause_t
     \<Rightarrow> error + (solver \<times> mutable_t \<times> control)" where
  "watch_check s propagator new_watchers which_clause num_clauses p c =
     (if c ! 1 < length (model s) then
        if dec_level (model s ! (c ! 1)) = 0 then
          (case extinguish s propagator which_clause c of
             Inl e \<Rightarrow> Inl e
           | Inr s2 \<Rightarrow> Inr (s2, new_watchers, Break))
        else if ass_status (model s ! (c ! 1)) = ACTIVE then
          Inr (s, mutable_push new_watchers (Some p), Break)
        else
          (case candidates s propagator which_clause p c [0..<width c - 2] of
             Inl e \<Rightarrow> Inl e
           | Inr (s2, clause_is_unit, clause_is_extinct) \<Rightarrow>
              if clause_is_unit \<and> \<not> clause_is_extinct
              then unit_found s2 p (c ! 1) new_watchers which_clause num_clauses
              else Inr (s2, new_watchers, Next))
      else Inl Undefined)"

text \<open>
  \<open>prop_clause\<close> is the whole body: the clause is fetched, skipped when it is \<open>NULL\<close>,
  and \<open>lits[0]\<close> and \<open>lits[1]\<close> are swapped when \<open>lits[0] != propagator\<close>.
\<close>

definition prop_clause ::
  "solver \<Rightarrow> nat \<Rightarrow> mutable_t \<Rightarrow> nat \<Rightarrow> nat \<Rightarrow> error + (solver \<times> mutable_t \<times> control)" where
  "prop_clause s propagator new_watchers which_clause num_clauses =
     (if which_clause < length (watched_lits (model s ! propagator)) then
        (case watched_lits (model s ! propagator) ! which_clause of
           None \<Rightarrow> Inr (s, new_watchers, Next)
         | Some p \<Rightarrow>
            (case deref s p of
               Inl e \<Rightarrow> Inl e
             | Inr c \<Rightarrow>
                if 2 \<le> width c then
                  (let c1 = (if c ! 0 \<noteq> propagator then swap_lits c 0 1 else c)
                   in watch_check (set_lits s p c1) propagator new_watchers
                        which_clause num_clauses p c1)
                else Inl Undefined))
      else Inl Undefined)"

function clause_loop ::
  "solver \<Rightarrow> nat \<Rightarrow> mutable_t \<Rightarrow> nat \<Rightarrow> nat \<Rightarrow> error + (solver \<times> mutable_t \<times> bool)" where
  "clause_loop s propagator new_watchers which_clause num_clauses =
     (if which_clause < num_clauses then
        (case prop_clause s propagator new_watchers which_clause num_clauses of
           Inl e \<Rightarrow> Inl e
         | Inr (s1, nw, Next) \<Rightarrow> clause_loop s1 propagator nw (which_clause + 1) num_clauses
         | Inr (s1, nw, Break) \<Rightarrow> Inr (s1, nw, False)
         | Inr (s1, nw, Return_CONFLICT) \<Rightarrow> Inr (s1, nw, True))
      else Inr (s, new_watchers, False))"
  by pat_completeness auto
termination
  by (relation "measure (\<lambda>(s, p, nw, i, n). n - i)") auto

declare clause_loop.simps [simp del]

text \<open>
  One round of the outer loop \<open>while (trail.head != trail.tail)\<close> of \<open>CDCL_prop\<close>: the
  propagator step on the literal at the trail head. The flag says whether the step left
  by \<open>return CONFLICT\<close>; otherwise \<open>trail.head\<close> has been incremented.
\<close>

definition install_watchers :: "solver \<Rightarrow> nat \<Rightarrow> mutable_t \<Rightarrow> solver" where
  "install_watchers s propagator new_watchers =
     s\<lparr>model := (model s)[propagator := (model s ! propagator)\<lparr>watched_lits := new_watchers\<rparr>]\<rparr>"

definition prop_step :: "solver \<Rightarrow> error + (solver \<times> bool)" where
  "prop_step s =
     (if 0 \<le> head s \<and> head s < int (length (sequence s)) then
        (let propagator = sequence s ! nat (head s) in
         case assign s propagator of
           Inl e \<Rightarrow> Inl e
         | Inr s1 \<Rightarrow>
            (case clause_loop s1 propagator [] 0 (length (watched_lits (model s1 ! propagator))) of
               Inl e \<Rightarrow> Inl e
             | Inr (s2, new_watchers, conflict) \<Rightarrow>
                if conflict then Inr (install_watchers s2 propagator new_watchers, True)
                else Inr ((install_watchers s2 propagator new_watchers)\<lparr>head := head s2 + 1\<rparr>, False)))
      else Inl Undefined)"

text \<open>No part of a propagator step moves \<open>trail.head\<close> or resizes the trail.\<close>

definition same_trail_frame :: "solver \<Rightarrow> solver \<Rightarrow> bool" where
  "same_trail_frame s s' \<longleftrightarrow>
     head s' = head s \<and> length (sequence s') = length (sequence s)"

lemma same_trail_frame_refl: "same_trail_frame s s"
  by (simp add: same_trail_frame_def)

lemma same_trail_frame_trans:
  "same_trail_frame s s1 \<Longrightarrow> same_trail_frame s1 s2 \<Longrightarrow> same_trail_frame s s2"
  by (simp add: same_trail_frame_def)

lemma assign_frame: "assign s lit = Inr s1 \<Longrightarrow> same_trail_frame s s1"
  by (auto simp: assign_def same_trail_frame_def Let_def split: if_splits)

lemma trail_queue_lit_frame: "trail_queue_lit s lit t = Inr s1 \<Longrightarrow> same_trail_frame s s1"
  by (auto simp: trail_queue_lit_def same_trail_frame_def Let_def split: if_splits)

lemma set_lits_frame: "same_trail_frame s (set_lits s p c)"
  by (simp add: set_lits_def same_trail_frame_def split: clause_ptr.splits)

lemma extinguish_frame: "extinguish s pr i c = Inr s1 \<Longrightarrow> same_trail_frame s s1"
  by (auto simp: extinguish_def same_trail_frame_def Let_def split: sum.splits)

lemma candidates_frame:
  "candidates s pr i p c ws = Inr (s1, u, x) \<Longrightarrow> same_trail_frame s s1"
proof (induction ws)
  case Nil
  then show ?case by (simp add: same_trail_frame_def)
next
  case (Cons w ws)
  then show ?case
    using set_lits_frame [of s p "swap_lits c 0 w"]
    by (auto simp: Let_def same_trail_frame_def split: if_splits sum.splits
             dest!: extinguish_frame)
qed

lemma unit_found_frame:
  "unit_found s p l1 nw i n = Inr (s1, nw1, ctl) \<Longrightarrow> same_trail_frame s s1"
  by (auto simp: unit_found_def Let_def same_trail_frame_def
           split: if_splits sum.splits dest!: trail_queue_lit_frame)

lemma watch_check_frame:
  assumes "watch_check s pr nw i n p c = Inr (s1, nw1, ctl)"
  shows "same_trail_frame s s1"
proof (cases "dec_level (model s ! (c ! 1)) = 0")
  case True
  with assms show ?thesis
    by (auto simp: watch_check_def split: if_splits sum.splits dest: extinguish_frame)
next
  case lv: False
  show ?thesis
  proof (cases "ass_status (model s ! (c ! 1)) = ACTIVE")
    case True
    with lv assms show ?thesis
      by (auto simp: watch_check_def same_trail_frame_def split: if_splits)
  next
    case False
    with lv assms obtain s2 u x where
      cs: "candidates s pr i p c [0..<width c - 2] = Inr (s2, u, x)" and
      r: "(if u \<and> \<not> x then unit_found s2 p (c ! 1) nw i n else Inr (s2, nw, Next))
            = Inr (s1, nw1, ctl)"
      by (auto simp: watch_check_def split: if_splits sum.splits)
    have f: "same_trail_frame s s2" by (rule candidates_frame [OF cs])
    show ?thesis
    proof (cases "u \<and> \<not> x")
      case True
      with r have "unit_found s2 p (c ! 1) nw i n = Inr (s1, nw1, ctl)" by simp
      then have "same_trail_frame s2 s1" by (rule unit_found_frame)
      with f show ?thesis by (rule same_trail_frame_trans)
    next
      case False
      with r f show ?thesis by auto
    qed
  qed
qed

lemma prop_clause_frame:
  assumes "prop_clause s pr nw i n = Inr (s1, nw1, ctl)"
  shows "same_trail_frame s s1"
proof (cases "watched_lits (model s ! pr) ! i")
  case None
  with assms show ?thesis
    by (auto simp: prop_clause_def same_trail_frame_def split: if_splits)
next
  case (Some p)
  with assms obtain c where
    w: "watch_check (set_lits s p (if c ! 0 \<noteq> pr then swap_lits c 0 1 else c)) pr nw i n p
          (if c ! 0 \<noteq> pr then swap_lits c 0 1 else c) = Inr (s1, nw1, ctl)"
    by (auto simp: prop_clause_def Let_def split: if_splits sum.splits)
  from set_lits_frame watch_check_frame [OF w] show ?thesis
    by (rule same_trail_frame_trans)
qed

lemma clause_loop_frame:
  "clause_loop s pr nw i n = Inr (s1, nw1, b) \<Longrightarrow> same_trail_frame s s1"
proof (induction s pr nw i n rule: clause_loop.induct)
  case (1 s pr nw i n)
  note unfold = clause_loop.simps [of s pr nw i n]
  show ?case
  proof (cases "i < n")
    case False
    with "1.prems" show ?thesis by (simp add: unfold same_trail_frame_def)
  next
    case True
    then obtain s2 nw2 ctl where pc: "prop_clause s pr nw i n = Inr (s2, nw2, ctl)"
      using "1.prems" by (auto simp: unfold split: sum.splits)
    have f: "same_trail_frame s s2" by (rule prop_clause_frame [OF pc])
    show ?thesis
    proof (cases ctl)
      case Next
      with True pc "1.prems" have "clause_loop s2 pr nw2 (i + 1) n = Inr (s1, nw1, b)"
        by (simp add: unfold)
      with "1.IH" [OF True pc refl refl Next] have "same_trail_frame s2 s1" by simp
      with f show ?thesis by (rule same_trail_frame_trans)
    next
      case Break
      with True pc "1.prems" f show ?thesis by (simp add: unfold)
    next
      case Return_CONFLICT
      with True pc "1.prems" f show ?thesis by (simp add: unfold)
    qed
  qed
qed

lemma install_watchers_frame: "same_trail_frame s (install_watchers s pr nw)"
  by (simp add: install_watchers_def same_trail_frame_def)

lemma prop_step_advances:
  assumes "prop_step s = Inr (s1, False)"
  shows "head s1 = head s + 1 \<and> length (sequence s1) = length (sequence s)
         \<and> head s < int (length (sequence s))"
proof -
  let ?pr = "sequence s ! nat (head s)"
  from assms have rng: "0 \<le> head s \<and> head s < int (length (sequence s))"
    by (simp add: prop_step_def split: if_splits)
  with assms obtain sa where a: "assign s ?pr = Inr sa"
    by (auto simp: prop_step_def Let_def split: sum.splits)
  with assms rng obtain sb nw where
    l: "clause_loop sa ?pr [] 0 (length (watched_lits (model sa ! ?pr))) = Inr (sb, nw, False)"
    and e: "s1 = (install_watchers sb ?pr nw)\<lparr>head := head sb + 1\<rparr>"
    by (auto simp: prop_step_def Let_def split: sum.splits if_splits)
  from assign_frame [OF a] clause_loop_frame [OF l] have "same_trail_frame s sb"
    by (rule same_trail_frame_trans)
  with e rng show ?thesis
    by (simp add: same_trail_frame_def install_watchers_def)
qed

text \<open>
  \<open>CDCL_prop\<close>: the propagator steps are repeated until \<open>trail.head == trail.tail\<close>
  (\<open>return DECIDE\<close>) or one of them returns \<open>CONFLICT\<close>.
\<close>

function CDCL_prop :: "solver \<Rightarrow> error + (solver \<times> state_t)" where
  "CDCL_prop s =
     (if head s \<noteq> tail s then
        (case prop_step s of
           Inl e \<Rightarrow> Inl e
         | Inr (s1, conflict) \<Rightarrow> if conflict then Inr (s1, CONFLICT) else CDCL_prop s1)
      else Inr (s, DECIDE))"
  by pat_completeness auto
termination
  by (relation "measure (\<lambda>s. nat (int (length (sequence s)) - head s))")
     (auto dest!: prop_step_advances)

declare CDCL_prop.simps [simp del]

section \<open>Decision\<close>

text \<open>The loop \<open>for (which_var = 0; which_var < num_vars; which_var++)\<close> of \<open>CDCL_decide\<close>.\<close>

fun decide_loop :: "solver \<Rightarrow> nat list \<Rightarrow> error + (solver \<times> state_t)" where
  "decide_loop s [] = Inr (s, SUCCESS)"
| "decide_loop s (which_var # rest) =
     (if which_var < length (model s) then
        if ass_status (model s ! which_var) = AVAILABLE then
          if which_var + num_vars s < length (model s) then
            (let m1 = (model s)[which_var := (model s ! which_var)\<lparr>ass_type := DEC_ASS\<rparr>];
                 m2 = m1[which_var + num_vars s :=
                           (m1 ! (which_var + num_vars s))\<lparr>ass_type := DEC_ASS\<rparr>]
             in case trail_queue_lit (s\<lparr>model := m2\<rparr>) which_var DEC_ASS of
                  Inl e \<Rightarrow> Inl e
                | Inr s1 \<Rightarrow>
                    Inr (s1\<lparr>cur_dec_level := cur_dec_level s1 + 1,
                            num_decisions := num_decisions s1 + 1\<rparr>, PROPAGATE))
          else Inl Undefined
        else decide_loop s rest
      else Inl Undefined)"

definition CDCL_decide :: "solver \<Rightarrow> error + (solver \<times> state_t)" where
  "CDCL_decide s =
     (if head s = int (num_vars s) then Inr (s, SUCCESS)
      else decide_loop s [0..<num_vars s])"

section \<open>Conflict repair\<close>

text \<open>
  The loop that fills \<open>learned_clause.lits\<close>. \<open>clause_init\<close> leaves the array
  uninitialised: a slot is \<open>None\<close> until the loop writes it. The index
  \<open>dec_level - model[which_var].dec_level\<close> is computed in \<open>unsigned long\<close>.
\<close>

fun learn_loop :: "solver \<Rightarrow> nat list \<Rightarrow> nat option list \<Rightarrow> error + nat option list" where
  "learn_loop s [] ls = Inr ls"
| "learn_loop s (which_var # rest) ls =
     (if which_var < length (model s) then
        if ass_status (model s ! which_var) \<noteq> AVAILABLE
           \<and> ass_type (model s ! which_var) = DEC_ASS then
          if unat (cur_dec_level s - dec_level (model s ! which_var)) < length ls then
            learn_loop s rest
              (ls[unat (cur_dec_level s - dec_level (model s ! which_var)) :=
                    Some (if truth_value (model s ! which_var) = POSITIVE
                          then get_comp_lit s which_var else which_var)])
          else Inl Undefined
        else learn_loop s rest ls
      else Inl Undefined)"

text \<open>\<open>learned_clause = clause_init(dec_level)\<close> and the loop over the variables.\<close>

definition learned_lits :: "solver \<Rightarrow> error + nat option list" where
  "learned_lits s =
     learn_loop s [0..<num_vars s] (replicate (unat (cur_dec_level s)) None)"

text \<open>
  \<open>mutable_push(&(get_comp_lit(learned_clause.lits[i])->watched_lits), &learned_clause)\<close>:
  what is pushed is the address of the local variable.
\<close>

definition watch_learned :: "solver \<Rightarrow> nat option list \<Rightarrow> nat \<Rightarrow> error + solver" where
  "watch_learned s ls i =
     (if i < length ls then
        (case ls ! i of
           None \<Rightarrow> Inl Undefined
         | Some l \<Rightarrow>
            if get_comp_lit s l < length (model s) then
              Inr (s\<lparr>model := (model s)[get_comp_lit s l := (model s ! get_comp_lit s l)
                     \<lparr>watched_lits :=
                        mutable_push (watched_lits (model s ! get_comp_lit s l))
                          (Some Learned_local)\<rparr>]\<rparr>)
            else Inl Undefined)
      else Inl Undefined)"

definition learn_clause :: "solver \<Rightarrow> error + solver" where
  "learn_clause s =
     (case learned_lits s of
        Inl e \<Rightarrow> Inl e
      | Inr ls \<Rightarrow>
         (case watch_learned s ls 0 of
            Inl e \<Rightarrow> Inl e
          | Inr s1 \<Rightarrow>
             (case watch_learned s1 ls 1 of
                Inl e \<Rightarrow> Inl e
              | Inr s2 \<Rightarrow>
                 Inr (s2\<lparr>learned_cnf := mutable_push (learned_cnf s2) (Some Learned_local)\<rparr>))))"

definition CDCL_repair_conflict :: "solver \<Rightarrow> error + solver" where
  "CDCL_repair_conflict s =
     (let s0 = s\<lparr>num_conflicts := num_conflicts s + 1\<rparr> in
      if cur_dec_level s0 = 0 then Inl Exit_UNSAT
      else
        (case (if cur_dec_level s0 \<noteq> 1 then learn_clause s0 else Inr s0) of
           Inl e \<Rightarrow> Inl e
         | Inr s1 \<Rightarrow>
            (case backtrack (cur_dec_level s1 - 1) s1 of
               Inl e \<Rightarrow> Inl e
             | Inr s2 \<Rightarrow>
                if 0 \<le> head s2 \<and> head s2 < int (length (sequence s2)) then
                  trail_queue_lit s2 (get_comp_lit s2 (sequence s2 ! nat (head s2))) CON_ASS
                else Inl Undefined)))"

section \<open>Initialisation\<close>

text \<open>
  \<open>CDCL_init\<close> reads the file with \<open>fscanf\<close>; the model starts from what it reads: the
  number of variables and the clauses, each the list of its literals without the closing
  0 (the header's clause count is the number of clauses). The memory that \<open>malloc\<close>
  returns for \<open>model\<close> and for \<open>trail.sequence\<close> is not initialised: \<open>mem\<close> and
  \<open>tmem\<close> are its contents, which are arbitrary.

  The test \<open>num_vars > pow(2, 61) - 1\<close> is made in double precision, where the right side
  is \<open>2 ^ 61\<close> and \<open>num_vars\<close> is rounded to 53 bits (to even on a tie).
\<close>

definition too_many_vars :: "nat \<Rightarrow> bool" where
  "too_many_vars n \<longleftrightarrow> 2 ^ 61 + 256 < int n"

text \<open>The loop that stores the literals of one clause and counts them in \<open>num_active\<close>.\<close>

fun init_lits :: "solver \<Rightarrow> int list \<Rightarrow> clause_t \<Rightarrow> error + (solver \<times> clause_t)" where
  "init_lits s [] c = Inr (s, c)"
| "init_lits s (d # ds) c =
     (if 0 \<le> DIMACS_to_lit (num_vars s) d
         \<and> DIMACS_to_lit (num_vars s) d < int (length (model s)) then
        (let lit = nat (DIMACS_to_lit (num_vars s) d) in
         init_lits
           (s\<lparr>model := (model s)[lit := (model s ! lit)\<lparr>num_active := num_active (model s ! lit) + 1\<rparr>]\<rparr>)
           ds (c @ [lit]))
      else Inl Undefined)"

definition watch_clause :: "solver \<Rightarrow> nat \<Rightarrow> clause_ptr \<Rightarrow> error + solver" where
  "watch_clause s lit p =
     (if get_comp_lit s lit < length (model s) then
        Inr (s\<lparr>model := (model s)[get_comp_lit s lit := (model s ! get_comp_lit s lit)
               \<lparr>watched_lits :=
                  mutable_push (watched_lits (model s ! get_comp_lit s lit)) (Some p)\<rparr>]\<rparr>)
      else Inl Undefined)"

fun init_clauses :: "solver \<Rightarrow> int list list \<Rightarrow> error + solver" where
  "init_clauses s [] = Inr s"
| "init_clauses s (cl # rest) =
     (if length cl = 0 then Inl Exit_UNSAT
      else if length cl = 1 then
        (if 0 \<le> DIMACS_to_lit (num_vars s) (cl ! 0) then
           (case trail_queue_lit s (nat (DIMACS_to_lit (num_vars s) (cl ! 0))) PROP_ASS of
              Inl e \<Rightarrow> Inl e
            | Inr s1 \<Rightarrow> init_clauses (s1\<lparr>state := PROPAGATE\<rparr>) rest)
         else Inl Undefined)
      else
        (case init_lits s cl [] of
           Inl e \<Rightarrow> Inl e
         | Inr (s1, c) \<Rightarrow>
            (case watch_clause (s1\<lparr>cnf := cnf s1 @ [c]\<rparr>) (c ! 0) (Cnf_clause (length (cnf s1))) of
               Inl e \<Rightarrow> Inl e
             | Inr s2 \<Rightarrow>
                (case watch_clause s2 (c ! 1) (Cnf_clause (length (cnf s1))) of
                   Inl e \<Rightarrow> Inl e
                 | Inr s3 \<Rightarrow> init_clauses s3 rest))))"

definition init_ass :: "ass \<Rightarrow> ass" where
  "init_ass a = a\<lparr>ass_status := AVAILABLE, num_active := 0, watched_lits := []\<rparr>"

definition CDCL_init ::
  "(nat \<Rightarrow> ass) \<Rightarrow> (nat \<Rightarrow> nat) \<Rightarrow> nat \<Rightarrow> int list list \<Rightarrow> error + solver" where
  "CDCL_init mem tmem V clauses =
     (if too_many_vars V then Inl Fatal
      else if clauses = [] then Inl Exit_SAT
      else if V = 0 then Inl Exit_UNSAT
      else
        (case init_clauses
                \<lparr>num_vars = V,
                 model = map (\<lambda>i. init_ass (mem i)) [0..<2 * V],
                 cnf = [], learned_cnf = [],
                 sequence = map tmem [0..<2 * V], head = 0, tail = 0,
                 cur_dec_level = 0, state = DECIDE,
                 num_conflicts = 0, num_decisions = 0, num_unit_props = 0\<rparr>
                clauses of
           Inl e \<Rightarrow> Inl e
         | Inr s \<Rightarrow> Inr (s\<lparr>cur_dec_level := 0, learned_cnf := []\<rparr>)))"

section \<open>The search driver\<close>

text \<open>
  Modelled from the spec: the search driver, the loop that calls the functions above. It
  is not part of CDCL.c. Section 4.5 of the specification describes it as a machine with
  the states DECIDE, PROPAGATE and CONFLICT: in DECIDE it calls \<open>CDCL_decide\<close> and reports
  SAT when no decision is possible; in PROPAGATE it calls \<open>CDCL_prop\<close> and goes where the
  result says; in CONFLICT it calls \<open>CDCL_repair_conflict\<close> and goes to PROPAGATE.
  \<open>CDCL_init\<close> sets the first state.
\<close>

definition driver_step :: "solver \<Rightarrow> error + solver" where
  "driver_step s =
     (case state s of
        DECIDE \<Rightarrow>
          (case CDCL_decide s of
             Inl e \<Rightarrow> Inl e
           | Inr (s1, r) \<Rightarrow> if r = SUCCESS then Inl Exit_SAT else Inr (s1\<lparr>state := r\<rparr>))
      | PROPAGATE \<Rightarrow>
          (case CDCL_prop s of
             Inl e \<Rightarrow> Inl e
           | Inr (s1, r) \<Rightarrow> Inr (s1\<lparr>state := r\<rparr>))
      | CONFLICT \<Rightarrow>
          (case CDCL_repair_conflict s of
             Inl e \<Rightarrow> Inl e
           | Inr s1 \<Rightarrow> Inr (s1\<lparr>state := PROPAGATE\<rparr>))
      | SUCCESS \<Rightarrow> Inl Exit_SAT)"

text \<open>The first \<open>n\<close> rounds of the driver.\<close>

fun drive :: "nat \<Rightarrow> error + solver \<Rightarrow> error + solver" where
  "drive 0 r = r"
| "drive (Suc n) r = (case r of Inl e \<Rightarrow> Inl e | Inr s \<Rightarrow> drive n (driver_step s))"

text \<open>
  Memory as a fresh heap gives it, filled with zeros, for the examples that need a
  concrete one. The status byte 0 is none of the four states; \<open>CDCL_init\<close> overwrites the
  status before anything reads it.
\<close>

definition zero_mem :: "nat \<Rightarrow> ass" where
  "zero_mem i = \<lparr>ass_status = DECEASED, truth_value = 0, ass_type = 0, dec_level = 0,
                 num_active = 0, watched_lits = []\<rparr>"

definition zero_trail :: "nat \<Rightarrow> nat" where
  "zero_trail i = 0"

section \<open>Predicates and example runs used in the statements\<close>

text \<open>Every status in the table is \<open>AVAILABLE\<close> or \<open>PENDING\<close>.\<close>

definition status_ok :: "ass list \<Rightarrow> bool" where
  "status_ok m = list_all (\<lambda>a. ass_status a = AVAILABLE \<or> ass_status a = PENDING) m"

text \<open>
  The states the solver passes through: the state \<open>CDCL_init\<close> leaves, and from a state
  it passes through every state that one of the functions of CDCL.c, a propagator step,
  the handling of one clause, or a round of the driver leaves, in whatever order they
  are called.
\<close>

inductive reachable :: "solver \<Rightarrow> bool" where
  after_init: "CDCL_init mem tmem V clauses = Inr s \<Longrightarrow> reachable s"
| after_decide: "reachable s \<Longrightarrow> CDCL_decide s = Inr (s1, r) \<Longrightarrow> reachable s1"
| after_prop: "reachable s \<Longrightarrow> CDCL_prop s = Inr (s1, r) \<Longrightarrow> reachable s1"
| after_repair: "reachable s \<Longrightarrow> CDCL_repair_conflict s = Inr s1 \<Longrightarrow> reachable s1"
| after_driver: "reachable s \<Longrightarrow> driver_step s = Inr s1 \<Longrightarrow> reachable s1"
| after_step: "reachable s \<Longrightarrow> prop_step s = Inr (s1, c) \<Longrightarrow> reachable s1"
| after_clause: "reachable s \<Longrightarrow> prop_clause s pr nw i n = Inr (s1, nw1, ctl) \<Longrightarrow> reachable s1"
| after_assign: "reachable s \<Longrightarrow> assign s lit = Inr s1 \<Longrightarrow> reachable s1"
| after_unassign: "reachable s \<Longrightarrow> unassign s lit = Inr s1 \<Longrightarrow> reachable s1"
| after_queue: "reachable s \<Longrightarrow> trail_queue_lit s lit t = Inr s1 \<Longrightarrow> reachable s1"
| after_backtrack: "reachable s \<Longrightarrow> backtrack k s = Inr s1 \<Longrightarrow> reachable s1"

text \<open>
  A variable is unassigned when both its literals carry \<open>DEC_MAX\<close>; the loop of
  \<open>backtrack\<close> has stopped when \<open>trail.head\<close> is below the trail or the literal it
  points to has a level that is not above the new one.
\<close>

definition unassigned :: "solver \<Rightarrow> nat \<Rightarrow> bool" where
  "unassigned s l \<longleftrightarrow>
     in_model s l \<and> dec_level (model s ! l) = DEC_MAX
     \<and> dec_level (model s ! get_comp_lit s l) = DEC_MAX"

definition stopped :: "64 word \<Rightarrow> solver \<Rightarrow> bool" where
  "stopped k s \<longleftrightarrow>
     head s < 0
     \<or> (head s < int (length (sequence s)) \<and> sequence s ! nat (head s) < length (model s)
        \<and> dec_level (model s ! (sequence s ! nat (head s))) \<le> k)"

text \<open>
  The formula \<open>p cnf 2 1\<close>, \<open>-2 1 0\<close>: the driver decides 1, propagates, decides 2, and
  the propagation of 2 returns \<open>CONFLICT\<close> at decision level 2 (fourth round); the fifth
  round repairs the conflict.
\<close>

definition conflict_at_level_2 :: "error + solver" where
  "conflict_at_level_2 = drive 4 (CDCL_init zero_mem zero_trail 2 [[- 2, 1]])"

definition after_repair :: "error + solver" where
  "after_repair = drive 5 (CDCL_init zero_mem zero_trail 2 [[- 2, 1]])"

text \<open>
  The formula \<open>p cnf 2 3\<close> with the unit clause \<open>1 0\<close> three times: \<open>CDCL_init\<close> puts
  the literal on the trail three times, and the first propagator step assigns it at
  level 0.
\<close>

definition repeated_unit_step :: "error + solver \<times> bool" where
  "repeated_unit_step =
     (case CDCL_init zero_mem zero_trail 2 [[1], [1], [1]] of
        Inl e \<Rightarrow> Inl e
      | Inr s \<Rightarrow> prop_step s)"

section \<open>Evaluating runs\<close>

lemma Inr_projr: "\<not> isl x \<Longrightarrow> x = Inr (projr x)"
  by (cases x) auto

lemma drive_numeral:
  "drive (numeral k) r =
     (case r of Inl e \<Rightarrow> Inl e | Inr s \<Rightarrow> drive (pred_numeral k) (driver_step s))"
  by (simp add: numeral_eq_Suc)

lemma replicate_numeral_unfold:
  "replicate (numeral k) x = x # replicate (pred_numeral k) x"
  by (simp add: numeral_eq_Suc)

lemmas run_defs =
  CDCL_init_def too_many_vars_def init_ass_def DIMACS_to_lit_def
  trail_queue_lit_def in_model_def get_comp_lit_def watch_clause_def mutable_push_def
  driver_step_def CDCL_decide_def CDCL_prop.simps prop_step_def assign_def unassign_def
  clause_loop.simps prop_clause_def deref_def width_def swap_lits_def set_lits_def
  watch_check_def extinguish_def unit_found_def copy_unprocessed.simps install_watchers_def
  CDCL_repair_conflict_def learn_clause_def learned_lits_def watch_learned_def
  backtrack_def backtrack_loop.simps
  drive_numeral upt_rec Let_def

lemma drive_Inl: "drive n (Inl e) = Inl e"
  by (cases n) simp_all

section \<open>The literal encoding\<close>

lemma to_ulong_id: "0 \<le> x \<Longrightarrow> x < 2 ^ 64 \<Longrightarrow> to_ulong x = x"
  by (simp add: to_ulong_def)

lemma to_long_id: "0 \<le> x \<Longrightarrow> x < 2 ^ 63 \<Longrightarrow> to_long x = x"
  by (simp add: to_long_def to_ulong_def)

text \<open>
  Claim C9. For every nonzero DIMACS literal \<open>x\<close> with \<open>|x| \<le> V\<close>, where \<open>V\<close> is a
  variable count that \<open>CDCL_init\<close> accepts, converting \<open>x\<close> to the internal form and back
  gives \<open>x\<close>: \<open>lit_to_DIMACS (DIMACS_to_lit x) = x\<close>.
\<close>

theorem DIMACS_round_trip:
  assumes nz: "x \<noteq> 0" and rng: "\<bar>x\<bar> \<le> int V" and lim: "\<not> too_many_vars V"
  shows "lit_to_DIMACS V (DIMACS_to_lit V x) = x"
proof -
  from lim have V: "int V < 2 ^ 62" by (simp add: too_many_vars_def)
  show ?thesis
  proof (cases "x < 0")
    case False
    with nz have pos: "0 < x" by simp
    have off: "DIMACS_to_lit V x = x - 1" using False by (simp add: DIMACS_to_lit_def)
    have u: "to_ulong (x - 1) = x - 1" using pos rng V by (intro to_ulong_id) auto
    have m: "(x - 1) mod int V = x - 1" using pos rng by simp
    have u2: "to_ulong x = x" using pos rng V by (intro to_ulong_id) auto
    have l: "to_long x = x" using pos rng V by (intro to_long_id) auto
    show ?thesis using pos rng by (simp add: lit_to_DIMACS_def off u m u2 l)
  next
    case True
    have off: "DIMACS_to_lit V x = int V + (- x - 1)"
      using True by (simp add: DIMACS_to_lit_def)
    have u: "to_ulong (int V + (- x - 1)) = int V + (- x - 1)"
      using True rng V by (intro to_ulong_id) auto
    have m: "(int V + (- x - 1)) mod int V = - x - 1" using True rng by simp
    have u2: "to_ulong (- x) = - x" using True rng V by (intro to_ulong_id) auto
    have l: "to_long (- x) = - x" using True rng V by (intro to_long_id) auto
    show ?thesis using True rng by (simp add: lit_to_DIMACS_def off u m u2 l)
  qed
qed

text \<open>The literal \<open>-2\<close> of a formula over three variables is the record at offset 4.\<close>

theorem DIMACS_round_trip_witness:
  "(- 2 :: int) \<noteq> 0 \<and> \<bar>- 2 :: int\<bar> \<le> int 3 \<and> \<not> too_many_vars 3
   \<and> DIMACS_to_lit 3 (- 2) = 4 \<and> lit_to_DIMACS 3 (DIMACS_to_lit 3 (- 2)) = - 2"
proof -
  have a: "(- 2 :: int) \<noteq> 0" by simp
  have b: "\<bar>- 2 :: int\<bar> \<le> int 3" by simp
  have c: "\<not> too_many_vars 3" by (simp add: too_many_vars_def)
  have d: "DIMACS_to_lit 3 (- 2) = 4" by (simp add: DIMACS_to_lit_def)
  from a b c d DIMACS_round_trip [OF a b c] show ?thesis by simp
qed

section \<open>The status field\<close>

lemma status_ok_nth:
  "status_ok m \<Longrightarrow> i < length m \<Longrightarrow> ass_status (m ! i) = AVAILABLE \<or> ass_status (m ! i) = PENDING"
  by (simp add: status_ok_def list_all_length)

lemma status_ok_update:
  assumes "status_ok m" and "ass_status a = ass_status (m ! i) \<or> ass_status a = PENDING"
  shows "status_ok (m[i := a])"
proof (cases "i < length m")
  case False
  with assms show ?thesis by (simp add: not_less list_update_beyond)
next
  case True
  with assms status_ok_nth [OF assms(1) True] show ?thesis
    by (auto simp: status_ok_def list_all_length nth_list_update)
qed

lemma assign_status: "assign s lit = Inr s1 \<Longrightarrow> status_ok (model s) \<Longrightarrow> status_ok (model s1)"
  by (auto simp: assign_def Let_def split: if_splits intro!: status_ok_update)

lemma unassign_status: "unassign s lit = Inr s1 \<Longrightarrow> status_ok (model s) \<Longrightarrow> status_ok (model s1)"
  by (auto simp: unassign_def Let_def split: if_splits intro!: status_ok_update)

lemma trail_queue_lit_status:
  "trail_queue_lit s lit t = Inr s1 \<Longrightarrow> status_ok (model s) \<Longrightarrow> status_ok (model s1)"
  by (auto simp: trail_queue_lit_def Let_def split: if_splits intro!: status_ok_update)

lemma decrement_active_status:
  "decrement_active m ls = Inr m1 \<Longrightarrow> status_ok m \<Longrightarrow> status_ok m1"
proof (induction ls arbitrary: m)
  case Nil
  then show ?case by simp
next
  case (Cons l ls)
  from Cons.prems have l: "l < length m" by (simp split: if_splits)
  with Cons.prems have
    "decrement_active (m[l := (m ! l)\<lparr>num_active := num_active (m ! l) - 1\<rparr>]) ls = Inr m1"
    by simp
  moreover have "status_ok (m[l := (m ! l)\<lparr>num_active := num_active (m ! l) - 1\<rparr>])"
    using Cons.prems(2) by (intro status_ok_update) auto
  ultimately show ?case by (rule Cons.IH)
qed

lemma extinguish_status:
  "extinguish s pr i c = Inr s1 \<Longrightarrow> status_ok (model s) \<Longrightarrow> status_ok (model s1)"
  by (auto simp: extinguish_def Let_def split: sum.splits
           intro!: status_ok_update elim!: decrement_active_status)

lemma set_lits_model: "model (set_lits s p c) = model s"
  by (simp add: set_lits_def split: clause_ptr.splits)

lemma candidates_status:
  "candidates s pr i p c ws = Inr (s1, u, x) \<Longrightarrow> status_ok (model s) \<Longrightarrow> status_ok (model s1)"
proof (induction ws)
  case Nil
  then show ?case by simp
next
  case (Cons w ws)
  then show ?case
    by (auto simp: Let_def set_lits_model split: if_splits sum.splits
             intro!: status_ok_update dest: extinguish_status)
qed

lemma unit_found_status:
  "unit_found s p l1 nw i n = Inr (s1, nw1, ctl) \<Longrightarrow> status_ok (model s) \<Longrightarrow> status_ok (model s1)"
  by (auto simp: unit_found_def Let_def split: if_splits sum.splits dest!: trail_queue_lit_status)

lemma watch_check_status:
  assumes "watch_check s pr nw i n p c = Inr (s1, nw1, ctl)" and ok: "status_ok (model s)"
  shows "status_ok (model s1)"
proof (cases "dec_level (model s ! (c ! 1)) = 0")
  case True
  with assms show ?thesis
    by (auto simp: watch_check_def split: if_splits sum.splits dest: extinguish_status)
next
  case lv: False
  show ?thesis
  proof (cases "ass_status (model s ! (c ! 1)) = ACTIVE")
    case True
    with lv assms show ?thesis
      by (auto simp: watch_check_def split: if_splits)
  next
    case False
    with lv assms obtain s2 u x where
      cs: "candidates s pr i p c [0..<width c - 2] = Inr (s2, u, x)" and
      r: "(if u \<and> \<not> x then unit_found s2 p (c ! 1) nw i n else Inr (s2, nw, Next))
            = Inr (s1, nw1, ctl)"
      by (auto simp: watch_check_def split: if_splits sum.splits)
    have f: "status_ok (model s2)" by (rule candidates_status [OF cs ok])
    show ?thesis
    proof (cases "u \<and> \<not> x")
      case True
      with r have "unit_found s2 p (c ! 1) nw i n = Inr (s1, nw1, ctl)" by simp
      then show ?thesis using f by (rule unit_found_status)
    next
      case False
      with r f show ?thesis by auto
    qed
  qed
qed

lemma prop_clause_status:
  assumes "prop_clause s pr nw i n = Inr (s1, nw1, ctl)" and ok: "status_ok (model s)"
  shows "status_ok (model s1)"
proof (cases "watched_lits (model s ! pr) ! i")
  case None
  with assms show ?thesis
    by (auto simp: prop_clause_def split: if_splits)
next
  case (Some p)
  with assms obtain c where
    w: "watch_check (set_lits s p (if c ! 0 \<noteq> pr then swap_lits c 0 1 else c)) pr nw i n p
          (if c ! 0 \<noteq> pr then swap_lits c 0 1 else c) = Inr (s1, nw1, ctl)"
    by (auto simp: prop_clause_def Let_def split: if_splits sum.splits)
  from ok have "status_ok (model (set_lits s p (if c ! 0 \<noteq> pr then swap_lits c 0 1 else c)))"
    by (simp add: set_lits_model)
  with w show ?thesis by (rule watch_check_status)
qed

lemma clause_loop_status:
  "clause_loop s pr nw i n = Inr (s1, nw1, b) \<Longrightarrow> status_ok (model s) \<Longrightarrow> status_ok (model s1)"
proof (induction s pr nw i n rule: clause_loop.induct)
  case (1 s pr nw i n)
  note unfold = clause_loop.simps [of s pr nw i n]
  show ?case
  proof (cases "i < n")
    case False
    with "1.prems" show ?thesis by (simp add: unfold)
  next
    case True
    then obtain s2 nw2 ctl where pc: "prop_clause s pr nw i n = Inr (s2, nw2, ctl)"
      using "1.prems" by (auto simp: unfold split: sum.splits)
    have f: "status_ok (model s2)" by (rule prop_clause_status [OF pc "1.prems"(2)])
    show ?thesis
    proof (cases ctl)
      case Next
      with True pc "1.prems" have "clause_loop s2 pr nw2 (i + 1) n = Inr (s1, nw1, b)"
        by (simp add: unfold)
      with "1.IH" [OF True pc refl refl Next] f show ?thesis by simp
    next
      case Break
      with True pc "1.prems" f show ?thesis by (simp add: unfold)
    next
      case Return_CONFLICT
      with True pc "1.prems" f show ?thesis by (simp add: unfold)
    qed
  qed
qed

lemma prop_step_status:
  assumes "prop_step s = Inr (s1, c)" and ok: "status_ok (model s)"
  shows "status_ok (model s1)"
proof -
  let ?pr = "sequence s ! nat (head s)"
  from assms obtain sa where a: "assign s ?pr = Inr sa"
    by (auto simp: prop_step_def Let_def split: sum.splits if_splits)
  with assms obtain sb nw where
    l: "clause_loop sa ?pr [] 0 (length (watched_lits (model sa ! ?pr))) = Inr (sb, nw, c)"
    and e: "model s1 = model (install_watchers sb ?pr nw)"
    by (auto simp: prop_step_def Let_def split: sum.splits if_splits)
  from clause_loop_status [OF l assign_status [OF a ok]] have "status_ok (model sb)" .
  then have "status_ok (model (install_watchers sb ?pr nw))"
    by (auto simp: install_watchers_def intro!: status_ok_update)
  with e show ?thesis by simp
qed

lemma CDCL_prop_status:
  "CDCL_prop s = Inr (s1, r) \<Longrightarrow> status_ok (model s) \<Longrightarrow> status_ok (model s1)"
proof (induction s rule: CDCL_prop.induct)
  case (1 s)
  note unfold = CDCL_prop.simps [of s]
  show ?case
  proof (cases "head s \<noteq> tail s")
    case False
    with "1.prems" show ?thesis by (simp add: unfold)
  next
    case True
    then obtain s2 c where ps: "prop_step s = Inr (s2, c)"
      using "1.prems" by (auto simp: unfold split: sum.splits)
    have f: "status_ok (model s2)" by (rule prop_step_status [OF ps "1.prems"(2)])
    show ?thesis
    proof (cases c)
      case True
      with \<open>head s \<noteq> tail s\<close> ps "1.prems" f show ?thesis by (simp add: unfold)
    next
      case False
      with \<open>head s \<noteq> tail s\<close> ps "1.prems" have "CDCL_prop s2 = Inr (s1, r)"
        by (simp add: unfold)
      with "1.IH" [OF \<open>head s \<noteq> tail s\<close> ps refl False] f show ?thesis by simp
    qed
  qed
qed

lemma backtrack_loop_status:
  "backtrack_loop k s = Inr s1 \<Longrightarrow> status_ok (model s) \<Longrightarrow> status_ok (model s1)"
proof (induction k s rule: backtrack_loop.induct)
  case (1 k s)
  note unfold = backtrack_loop.simps [of k s]
  let ?l = "sequence s ! nat (head s)"
  show ?case
  proof (cases "0 \<le> head s \<and> k < dec_level (model s ! ?l)")
    case False
    with "1.prems" show ?thesis by (auto simp: unfold split: if_splits)
  next
    case True
    with "1.prems" have rng: "head s < int (length (sequence s)) \<and> ?l < length (model s)"
      by (auto simp: unfold split: if_splits)
    with True "1.prems" obtain s2 where u: "unassign s ?l = Inr s2"
      and r: "backtrack_loop k (s2\<lparr>head := head s2 - 1\<rparr>) = Inr s1"
      by (auto simp: unfold split: sum.splits)
    from unassign_status [OF u "1.prems"(2)] have "status_ok (model (s2\<lparr>head := head s2 - 1\<rparr>))"
      by simp
    with "1.IH" [of s2] True rng u r show ?thesis by simp
  qed
qed

lemma backtrack_status:
  "backtrack k s = Inr s1 \<Longrightarrow> status_ok (model s) \<Longrightarrow> status_ok (model s1)"
  by (auto simp: backtrack_def split: sum.splits dest: backtrack_loop_status)

lemma decide_loop_status:
  "decide_loop s vs = Inr (s1, r) \<Longrightarrow> status_ok (model s) \<Longrightarrow> status_ok (model s1)"
proof (induction vs)
  case Nil
  then show ?case by simp
next
  case (Cons v vs)
  show ?case
  proof (cases "ass_status (model s ! v) = AVAILABLE")
    case False
    with Cons show ?thesis by (auto split: if_splits)
  next
    case True
    let ?m1 = "(model s)[v := (model s ! v)\<lparr>ass_type := DEC_ASS\<rparr>]"
    let ?m2 = "?m1[v + num_vars s := (?m1 ! (v + num_vars s))\<lparr>ass_type := DEC_ASS\<rparr>]"
    from True Cons.prems obtain s2 where
      q: "trail_queue_lit (s\<lparr>model := ?m2\<rparr>) v DEC_ASS = Inr s2" and e: "model s1 = model s2"
      by (auto simp: Let_def split: if_splits sum.splits)
    have "status_ok ?m2" using Cons.prems(2) by (intro status_ok_update) auto
    with trail_queue_lit_status [OF q] e show ?thesis by simp
  qed
qed

lemma CDCL_decide_status:
  "CDCL_decide s = Inr (s1, r) \<Longrightarrow> status_ok (model s) \<Longrightarrow> status_ok (model s1)"
  by (auto simp: CDCL_decide_def split: if_splits dest: decide_loop_status)

lemma watch_learned_status:
  "watch_learned s ls i = Inr s1 \<Longrightarrow> status_ok (model s) \<Longrightarrow> status_ok (model s1)"
  by (auto simp: watch_learned_def split: if_splits option.splits intro!: status_ok_update)

lemma learn_clause_status:
  "learn_clause s = Inr s1 \<Longrightarrow> status_ok (model s) \<Longrightarrow> status_ok (model s1)"
  by (auto simp: learn_clause_def split: sum.splits dest!: watch_learned_status)

lemma CDCL_repair_conflict_status:
  assumes "CDCL_repair_conflict s = Inr s1" and ok: "status_ok (model s)"
  shows "status_ok (model s1)"
proof -
  let ?s0 = "s\<lparr>num_conflicts := num_conflicts s + 1\<rparr>"
  from assms obtain sa sb where
    a: "(if cur_dec_level ?s0 \<noteq> 1 then learn_clause ?s0 else Inr ?s0) = Inr sa" and
    b: "backtrack (cur_dec_level sa - 1) sa = Inr sb" and
    q: "trail_queue_lit sb (get_comp_lit sb (sequence sb ! nat (head sb))) CON_ASS = Inr s1"
    by (auto simp: CDCL_repair_conflict_def Let_def split: if_splits sum.splits)
  from ok have "status_ok (model ?s0)" by simp
  with a have "status_ok (model sa)" by (auto split: if_splits dest: learn_clause_status)
  with b have "status_ok (model sb)" by (rule backtrack_status)
  with q show ?thesis by (rule trail_queue_lit_status)
qed

lemma init_lits_status:
  "init_lits s ds c = Inr (s1, c1) \<Longrightarrow> status_ok (model s) \<Longrightarrow> status_ok (model s1)"
proof (induction ds arbitrary: s c)
  case Nil
  then show ?case by simp
next
  case (Cons d ds)
  let ?l = "nat (DIMACS_to_lit (num_vars s) d)"
  let ?s = "s\<lparr>model := (model s)[?l := (model s ! ?l)\<lparr>num_active := num_active (model s ! ?l) + 1\<rparr>]\<rparr>"
  from Cons.prems have "init_lits ?s ds (c @ [?l]) = Inr (s1, c1)"
    by (simp add: Let_def split: if_splits)
  moreover have "status_ok (model ?s)" using Cons.prems(2) by (auto intro!: status_ok_update)
  ultimately show ?case by (rule Cons.IH)
qed

lemma watch_clause_status:
  "watch_clause s l p = Inr s1 \<Longrightarrow> status_ok (model s) \<Longrightarrow> status_ok (model s1)"
  by (auto simp: watch_clause_def split: if_splits intro!: status_ok_update)

lemma init_clauses_status:
  "init_clauses s cls = Inr s1 \<Longrightarrow> status_ok (model s) \<Longrightarrow> status_ok (model s1)"
proof (induction cls arbitrary: s)
  case Nil
  then show ?case by simp
next
  case (Cons cl cls)
  show ?case
  proof (cases "length cl = 1")
    case True
    with Cons.prems obtain s2 where
      q: "trail_queue_lit s (nat (DIMACS_to_lit (num_vars s) (cl ! 0))) PROP_ASS = Inr s2" and
      r: "init_clauses (s2\<lparr>state := PROPAGATE\<rparr>) cls = Inr s1"
      by (auto split: if_splits sum.splits)
    from trail_queue_lit_status [OF q Cons.prems(2)]
    have "status_ok (model (s2\<lparr>state := PROPAGATE\<rparr>))" by simp
    with r show ?thesis by (rule Cons.IH)
  next
    case False
    with Cons.prems obtain sa c sb sc where
      a: "init_lits s cl [] = Inr (sa, c)" and
      b: "watch_clause (sa\<lparr>cnf := cnf sa @ [c]\<rparr>) (c ! 0) (Cnf_clause (length (cnf sa))) = Inr sb" and
      c: "watch_clause sb (c ! 1) (Cnf_clause (length (cnf sa))) = Inr sc" and
      r: "init_clauses sc cls = Inr s1"
      by (auto split: if_splits sum.splits)
    from init_lits_status [OF a Cons.prems(2)]
    have "status_ok (model (sa\<lparr>cnf := cnf sa @ [c]\<rparr>))" by simp
    with b have "status_ok (model sb)" by (rule watch_clause_status)
    with c have "status_ok (model sc)" by (rule watch_clause_status)
    with r show ?thesis by (rule Cons.IH)
  qed
qed

lemma CDCL_init_status:
  assumes "CDCL_init mem tmem V cls = Inr s"
  shows "status_ok (model s)"
proof -
  let ?s0 = "\<lparr>num_vars = V, model = map (\<lambda>i. init_ass (mem i)) [0..<2 * V],
              cnf = [], learned_cnf = [], sequence = map tmem [0..<2 * V], head = 0, tail = 0,
              cur_dec_level = 0, state = DECIDE,
              num_conflicts = 0, num_decisions = 0, num_unit_props = 0\<rparr>"
  from assms obtain s1 where i: "init_clauses ?s0 cls = Inr s1" and e: "model s = model s1"
    by (auto simp: CDCL_init_def split: if_splits sum.splits)
  have "status_ok (model ?s0)"
    by (simp add: status_ok_def list_all_iff init_ass_def)
  with i e show ?thesis by (auto dest: init_clauses_status)
qed

lemma driver_step_status:
  assumes "driver_step s = Inr s1" and ok: "status_ok (model s)"
  shows "status_ok (model s1)"
proof (cases "state s")
  case DECIDE
  with assms obtain sa r where "CDCL_decide s = Inr (sa, r)" and "model s1 = model sa"
    by (auto simp: driver_step_def split: sum.splits if_splits)
  with ok CDCL_decide_status [of s sa r] show ?thesis by simp
next
  case PROPAGATE
  with assms obtain sa r where "CDCL_prop s = Inr (sa, r)" and "model s1 = model sa"
    by (auto simp: driver_step_def split: sum.splits)
  with ok CDCL_prop_status [of s sa r] show ?thesis by simp
next
  case CONFLICT
  with assms obtain sa where "CDCL_repair_conflict s = Inr sa" and "model s1 = model sa"
    by (auto simp: driver_step_def split: sum.splits)
  with ok CDCL_repair_conflict_status [of s sa] show ?thesis by simp
next
  case SUCCESS
  with assms show ?thesis by (simp add: driver_step_def)
qed

lemma reachable_status: "reachable s \<Longrightarrow> status_ok (model s)"
proof (induction rule: reachable.induct)
  case (after_init mem tmem V clauses s)
  then show ?case by (rule CDCL_init_status)
next
  case (after_decide s s1 r)
  then show ?case by (auto dest: CDCL_decide_status)
next
  case (after_prop s s1 r)
  then show ?case by (auto dest: CDCL_prop_status)
next
  case (after_repair s s1)
  then show ?case by (auto dest: CDCL_repair_conflict_status)
next
  case (after_driver s s1)
  then show ?case by (auto dest: driver_step_status)
next
  case (after_step s s1 c)
  then show ?case by (auto dest: prop_step_status)
next
  case (after_clause s pr nw i n s1 nw1 ctl)
  then show ?case by (auto dest: prop_clause_status)
next
  case (after_assign s lit s1)
  then show ?case by (auto dest: assign_status)
next
  case (after_unassign s lit s1)
  then show ?case by (auto dest: unassign_status)
next
  case (after_queue s lit t s1)
  then show ?case by (auto dest: trail_queue_lit_status)
next
  case (after_backtrack k s s1)
  then show ?case by (auto dest: backtrack_status)
qed

lemma drive_reachable: "drive n (Inr s) = Inr s1 \<Longrightarrow> reachable s \<Longrightarrow> reachable s1"
proof (induction n arbitrary: s)
  case 0
  then show ?case by simp
next
  case (Suc n)
  from Suc.prems(1) have d: "drive n (driver_step s) = Inr s1" by simp
  show ?case
  proof (cases "driver_step s")
    case (Inl e)
    with d show ?thesis by (simp add: drive_Inl)
  next
    case (Inr s2)
    with Suc.prems(2) have "reachable s2" by (rule reachable.after_driver)
    moreover from d Inr have "drive n (Inr s2) = Inr s1" by simp
    ultimately show ?thesis using Suc.IH by blast
  qed
qed

text \<open>
  What this means for the propagator: with such statuses the candidate loop never finds a
  clause extinct (its test for \<open>DECEASED\<close> fails), and the test of the other watcher for
  \<open>ACTIVE\<close> fails.
\<close>

lemma candidates_never_extinct:
  "candidates s pr i p c ws = Inr (s1, u, x) \<Longrightarrow> status_ok (model s) \<Longrightarrow> \<not> x"
proof (induction ws)
  case Nil
  then show ?case by simp
next
  case (Cons w ws)
  from Cons.prems have r: "c ! w < length (model s)" by (simp split: if_splits)
  from status_ok_nth [OF Cons.prems(2) r]
  have "ass_status (model s ! (c ! w)) \<noteq> DECEASED" by auto
  with Cons r show ?case by (auto simp: Let_def split: if_splits)
qed

lemma other_watcher_never_ACTIVE:
  "status_ok (model s) \<Longrightarrow> l < length (model s) \<Longrightarrow> ass_status (model s ! l) \<noteq> ACTIVE"
  using status_ok_nth [of "model s" l] by auto

text \<open>
  Claim C8. In every state the solver passes through, the status of every assignment
  record is \<open>AVAILABLE\<close> or \<open>PENDING\<close>: no function writes \<open>ACTIVE\<close> or \<open>DECEASED\<close>, so
  a comparison of a status with \<open>ACTIVE\<close> or with \<open>DECEASED\<close> is false.
\<close>

theorem status_only_AVAILABLE_or_PENDING:
  assumes "reachable s" and "lit < length (model s)"
  shows "(ass_status (model s ! lit) = AVAILABLE \<or> ass_status (model s ! lit) = PENDING)
         \<and> ass_status (model s ! lit) \<noteq> ACTIVE \<and> ass_status (model s ! lit) \<noteq> DECEASED"
  using status_ok_nth [OF reachable_status [OF assms(1)] assms(2)] by auto

text \<open>After the conflict repair of the example the literal 2 is \<open>PENDING\<close>.\<close>

theorem status_only_AVAILABLE_or_PENDING_witness:
  "reachable (projr after_repair) \<and> 1 < length (model (projr after_repair))
   \<and> ass_status (model (projr after_repair) ! 1) = PENDING
   \<and> ass_status (model (projr after_repair) ! 1) \<noteq> ACTIVE
   \<and> ass_status (model (projr after_repair) ! 1) \<noteq> DECEASED"
proof -
  let ?i = "CDCL_init zero_mem zero_trail 2 [[- 2, 1]]"
  have "\<not> isl ?i" by code_simp
  then have s0: "?i = Inr (projr ?i)" by (rule Inr_projr)
  have "\<not> isl after_repair" by code_simp
  then have s: "after_repair = Inr (projr after_repair)" by (rule Inr_projr)
  from s0 s have "drive 5 (Inr (projr ?i)) = Inr (projr after_repair)"
    by (simp add: after_repair_def)
  then have re: "reachable (projr after_repair)"
    using reachable.after_init [OF s0] by (rule drive_reachable)
  have l: "1 < length (model (projr after_repair))" by code_simp
  have p: "ass_status (model (projr after_repair) ! 1) = PENDING" by code_simp
  from re l p status_only_AVAILABLE_or_PENDING [OF re l] show ?thesis by simp
qed


section \<open>Backtracking\<close>

lemma unassign_unassigned: "unassign s l = Inr s1 \<Longrightarrow> unassigned s1 l"
  by (auto simp: unassign_def unassigned_def in_model_def get_comp_lit_def Let_def
                 nth_list_update split: if_splits)

lemma unassigned_head: "unassigned (s\<lparr>head := h\<rparr>) l = unassigned s l"
  by (simp add: unassigned_def in_model_def get_comp_lit_def)

lemma unassigned_trail:
  "unassigned (s\<lparr>head := h, tail := t, cur_dec_level := d\<rparr>) l = unassigned s l"
  by (simp add: unassigned_def in_model_def get_comp_lit_def)

lemma update_same_level: "dec_level a = v \<Longrightarrow> a\<lparr>dec_level := v\<rparr> = a"
  by auto

lemma unassigned_unassign: "unassigned s l \<Longrightarrow> unassign s l = Inr s"
  by (simp add: unassign_def unassigned_def Let_def update_same_level)

lemma unassign_frame:
  "unassign s l = Inr s1 \<Longrightarrow> sequence s1 = sequence s \<and> head s1 = head s"
  by (auto simp: unassign_def Let_def split: if_splits)

lemma stopped_loop: "stopped k s \<Longrightarrow> backtrack_loop k s = Inr s"
  by (auto simp: stopped_def backtrack_loop.simps [of k s] not_less)

lemma not_stopped_iff:
  "backtrack_loop k s = Inr sL \<Longrightarrow>
     \<not> stopped k s \<longleftrightarrow> (0 \<le> head s \<and> k < dec_level (model s ! (sequence s ! nat (head s))))"
  by (auto simp: stopped_def backtrack_loop.simps [of k s] not_less not_le split: if_splits)

lemma loop_step:
  assumes "backtrack_loop k s = Inr sL" and "\<not> stopped k s"
  obtains s2 where "unassign s (sequence s ! nat (head s)) = Inr s2"
    and "backtrack_loop k (s2\<lparr>head := head s - 1\<rparr>) = Inr sL"
    and "head s < int (length (sequence s))" and "0 \<le> head s"
proof -
  from assms have c: "0 \<le> head s \<and> k < dec_level (model s ! (sequence s ! nat (head s)))"
    by (simp add: not_stopped_iff)
  with assms(1) have r: "head s < int (length (sequence s))"
    by (auto simp: backtrack_loop.simps [of k s] split: if_splits)
  with c assms(1) obtain s2 where u: "unassign s (sequence s ! nat (head s)) = Inr s2"
    and l: "backtrack_loop k (s2\<lparr>head := head s2 - 1\<rparr>) = Inr sL"
    by (auto simp: backtrack_loop.simps [of k s] split: if_splits sum.splits)
  from u l have "backtrack_loop k (s2\<lparr>head := head s - 1\<rparr>) = Inr sL"
    by (simp add: unassign_frame)
  with u r c that show ?thesis by blast
qed

lemma backtrack_loop_facts:
  "backtrack_loop k s = Inr sL \<Longrightarrow>
     stopped k sL \<and> sequence sL = sequence s \<and> head sL \<le> head s
     \<and> (- 1 \<le> head s \<longrightarrow> - 1 \<le> head sL)
     \<and> (\<not> stopped k s \<longrightarrow>
          head sL + 1 \<le> head s \<and> unassigned sL (sequence s ! nat (head sL + 1)))"
proof (induction k s rule: backtrack_loop.induct)
  case (1 k s)
  show ?case
  proof (cases "stopped k s")
    case True
    with "1.prems" stopped_loop [OF True] show ?thesis by simp
  next
    case False
    from "1.prems" False obtain s2 where
      u: "unassign s (sequence s ! nat (head s)) = Inr s2" and
      l: "backtrack_loop k (s2\<lparr>head := head s - 1\<rparr>) = Inr sL" and
      r: "head s < int (length (sequence s))" and h: "0 \<le> head s"
      by (rule loop_step)
    let ?s2 = "s2\<lparr>head := head s - 1\<rparr>"
    from "1.prems" False have c: "k < dec_level (model s ! (sequence s ! nat (head s)))"
      by (simp add: not_stopped_iff)
    from "1.prems" h r c have
      m: "sequence s ! nat (head s) < length (model s)"
      by (auto simp: backtrack_loop.simps [of k s] split: if_splits)
    from u have fr: "sequence s2 = sequence s" "head s2 = head s"
      by (simp_all add: unassign_frame)
    from l fr have l2: "backtrack_loop k (s2\<lparr>head := head s2 - 1\<rparr>) = Inr sL" by simp
    have ih: "stopped k sL \<and> sequence sL = sequence ?s2 \<and> head sL \<le> head ?s2
       \<and> (- 1 \<le> head ?s2 \<longrightarrow> - 1 \<le> head sL)
       \<and> (\<not> stopped k ?s2 \<longrightarrow>
            head sL + 1 \<le> head ?s2 \<and> unassigned sL (sequence ?s2 ! nat (head sL + 1)))"
      using "1.IH" [of s2] h r m c u l2 fr by simp
    have last: "head sL + 1 \<le> head s \<and> unassigned sL (sequence s ! nat (head sL + 1))"
    proof (cases "stopped k ?s2")
      case True
      with l stopped_loop [OF True] have e: "sL = ?s2" by simp
      from unassign_unassigned [OF u] have "unassigned ?s2 (sequence s ! nat (head s))"
        by (simp add: unassigned_head)
      with e show ?thesis by simp
    next
      case False
      with ih fr show ?thesis by simp
    qed
    from ih fr h last False show ?thesis by simp
  qed
qed

lemma less_DEC_MAX: "(k :: 64 word) < x \<Longrightarrow> k < DEC_MAX"
proof -
  assume "k < x"
  moreover have "x \<le> - 1" by simp
  ultimately show ?thesis by (rule less_le_trans)
qed

text \<open>
  Claim C10, as amended. In a state whose trail entry at \<open>trail.head\<close> carries a decision
  level above \<open>k\<close> (as at a conflict at level \<open>d\<close> with \<open>k = d - 1\<close>), \<open>backtrack(k)\<close>
  run twice in succession leaves the state that \<open>backtrack(k)\<close> run once leaves.
\<close>

theorem backtrack_twice_after_unassigning:
  assumes b: "backtrack k s = Inr s1"
    and h: "0 \<le> head s"
    and lv: "k < dec_level (model s ! (sequence s ! nat (head s)))"
  shows "backtrack k s1 = Inr s1"
proof -
  from b obtain sL where l: "backtrack_loop k s = Inr sL" and
    e: "s1 = sL\<lparr>head := head sL + 1, tail := head sL + 1, cur_dec_level := k\<rparr>"
    by (auto simp: backtrack_def split: sum.splits)
  from l h lv have ns: "\<not> stopped k s" by (simp add: not_stopped_iff)
  from l ns have r: "head s < int (length (sequence s))" by (rule loop_step)
  from backtrack_loop_facts [OF l] ns h have
    st: "stopped k sL" and sq: "sequence sL = sequence s" and
    lo: "- 1 \<le> head sL" and hi: "head sL + 1 \<le> head s" and
    un: "unassigned sL (sequence s ! nat (head sL + 1))"
    by simp_all
  let ?l = "sequence s ! nat (head sL + 1)"
  from un e have un1: "unassigned s1 ?l"
    by (simp add: unassigned_trail)
  from st e have st1: "stopped k (s1\<lparr>head := head s1 - 1\<rparr>)"
    by (simp add: stopped_def)
  from e sq have hs1: "head s1 = head sL + 1" and sq1: "sequence s1 = sequence s"
    by simp_all
  from un1 have lm: "?l < length (model s1)" and lmax: "dec_level (model s1 ! ?l) = DEC_MAX"
    by (simp_all add: unassigned_def in_model_def)
  have "backtrack_loop k s1 = backtrack_loop k (s1\<lparr>head := head s1 - 1\<rparr>)"
    using lm lmax unassigned_unassign [OF un1] less_DEC_MAX [OF lv] hs1 sq1 lo hi r
    by (simp add: backtrack_loop.simps [of k s1])
  with stopped_loop [OF st1] have "backtrack_loop k s1 = Inr (s1\<lparr>head := head s1 - 1\<rparr>)"
    by simp
  with e show ?thesis by (simp add: backtrack_def)
qed

text \<open>The conflict at level 2 of the example, with \<open>k = 1\<close>.\<close>

theorem backtrack_twice_after_unassigning_witness:
  "\<not> isl (backtrack 1 (projr conflict_at_level_2))
   \<and> 0 \<le> head (projr conflict_at_level_2)
   \<and> 1 < dec_level (model (projr conflict_at_level_2)
                      ! (sequence (projr conflict_at_level_2)
                           ! nat (head (projr conflict_at_level_2))))
   \<and> backtrack 1 (projr (backtrack 1 (projr conflict_at_level_2)))
       = backtrack 1 (projr conflict_at_level_2)"
proof -
  let ?s = "projr conflict_at_level_2"
  have i: "\<not> isl (backtrack 1 ?s)" by code_simp
  then have b: "backtrack 1 ?s = Inr (projr (backtrack 1 ?s))" by (rule Inr_projr)
  have h: "0 \<le> head ?s" by code_simp
  have lv: "1 < dec_level (model ?s ! (sequence ?s ! nat (head ?s)))" by code_simp
  from backtrack_twice_after_unassigning [OF b h lv] b i h lv show ?thesis by simp
qed

text \<open>
  Claim C10 as stated fails where the entry at \<open>trail.head\<close> is not above \<open>k\<close>: the loop
  does not run and each call advances \<open>trail.head\<close> and \<open>trail.tail\<close> by one. After the
  first propagator step on the repeated unit clause, \<open>trail.head\<close> is 1; one
  \<open>backtrack(0)\<close> leaves it at 2, a second one at 3.
\<close>

theorem backtrack_twice_counterexample:
  "\<not> isl repeated_unit_step
   \<and> head (fst (projr repeated_unit_step)) = 1
   \<and> backtrack 0 (fst (projr repeated_unit_step))
       = Inr (projr (backtrack 0 (fst (projr repeated_unit_step))))
   \<and> head (projr (backtrack 0 (fst (projr repeated_unit_step)))) = 2
   \<and> backtrack 0 (projr (backtrack 0 (fst (projr repeated_unit_step))))
       = Inr (projr (backtrack 0 (projr (backtrack 0 (fst (projr repeated_unit_step))))))
   \<and> head (projr (backtrack 0 (projr (backtrack 0 (fst (projr repeated_unit_step)))))) = 3
   \<and> backtrack 0 (projr (backtrack 0 (fst (projr repeated_unit_step))))
       \<noteq> backtrack 0 (fst (projr repeated_unit_step))"
  by code_simp


section \<open>What the functions leave untouched\<close>

text \<open>
  Facts about every state, behind the examples of the next section: \<open>unassign\<close> and
  \<open>backtrack\<close> change no status; the loop that copies the unprocessed watches appends
  copies of one clause; a \<open>break\<close> in the body ends the clause loop; conflict repair
  changes no \<open>num_active\<close>.
\<close>

lemma map_update_same: "f a = f (m ! i) \<Longrightarrow> map f (m[i := a]) = map f m"
proof (cases "i < length m")
  case True
  assume "f a = f (m ! i)"
  with True show ?thesis by (simp add: map_update list_update_same_conv)
next
  case False
  then show ?thesis by (simp add: not_less list_update_beyond)
qed

lemma unassign_keeps_status:
  "unassign s lit = Inr s1 \<Longrightarrow> map ass_status (model s1) = map ass_status (model s)"
  by (auto simp: unassign_def Let_def map_update_same split: if_splits)

lemma backtrack_loop_keeps_status:
  "backtrack_loop k s = Inr s1 \<Longrightarrow> map ass_status (model s1) = map ass_status (model s)"
proof (induction k s rule: backtrack_loop.induct)
  case (1 k s)
  show ?case
  proof (cases "stopped k s")
    case True
    with "1.prems" stopped_loop [OF True] show ?thesis by simp
  next
    case False
    from "1.prems" False obtain s2 where
      u: "unassign s (sequence s ! nat (head s)) = Inr s2" and
      l: "backtrack_loop k (s2\<lparr>head := head s - 1\<rparr>) = Inr s1" and
      r: "head s < int (length (sequence s))" and h: "0 \<le> head s"
      by (rule loop_step)
    from "1.prems" False have c: "k < dec_level (model s ! (sequence s ! nat (head s)))"
      by (simp add: not_stopped_iff)
    from "1.prems" h r c have m: "sequence s ! nat (head s) < length (model s)"
      by (auto simp: backtrack_loop.simps [of k s] split: if_splits)
    from u have fr: "head s2 = head s" by (simp add: unassign_frame)
    from l fr have "backtrack_loop k (s2\<lparr>head := head s2 - 1\<rparr>) = Inr s1" by simp
    with "1.IH" [of s2] h r m c u
    have "map ass_status (model s1) = map ass_status (model (s2\<lparr>head := head s2 - 1\<rparr>))"
      by simp
    with unassign_keeps_status [OF u] show ?thesis by simp
  qed
qed

lemma backtrack_keeps_status:
  "backtrack k s = Inr s1 \<Longrightarrow> map ass_status (model s1) = map ass_status (model s)"
  by (auto simp: backtrack_def split: sum.splits dest: backtrack_loop_keeps_status)

lemma copy_unprocessed_replicate:
  "copy_unprocessed nw p i n = nw @ replicate (n - i) (Some p)"
proof (induction nw p i n rule: copy_unprocessed.induct)
  case (1 nw p i n)
  show ?case
  proof (cases "i < n")
    case True
    then have "n - i = Suc (n - (i + 1))" by simp
    with True "1.IH" show ?thesis
      by (simp add: copy_unprocessed.simps [of nw p i n] mutable_push_def)
  next
    case False
    then show ?thesis by (simp add: copy_unprocessed.simps [of nw p i n])
  qed
qed

lemma clause_loop_Break:
  "i < n \<Longrightarrow> prop_clause s pr nw i n = Inr (s1, nw1, Break) \<Longrightarrow>
     clause_loop s pr nw i n = Inr (s1, nw1, False)"
  by (simp add: clause_loop.simps [of s pr nw i n])

lemma watch_learned_keeps_num_active:
  "watch_learned s ls i = Inr s1 \<Longrightarrow> map num_active (model s1) = map num_active (model s)"
  by (auto simp: watch_learned_def map_update_same split: if_splits option.splits)

lemma learn_clause_keeps_num_active:
  "learn_clause s = Inr s1 \<Longrightarrow> map num_active (model s1) = map num_active (model s)"
  by (auto simp: learn_clause_def split: sum.splits dest!: watch_learned_keeps_num_active)

lemma unassign_keeps_num_active:
  "unassign s lit = Inr s1 \<Longrightarrow> map num_active (model s1) = map num_active (model s)"
  by (auto simp: unassign_def Let_def map_update_same split: if_splits)

lemma trail_queue_lit_keeps_num_active:
  "trail_queue_lit s lit t = Inr s1 \<Longrightarrow> map num_active (model s1) = map num_active (model s)"
  by (auto simp: trail_queue_lit_def Let_def map_update_same split: if_splits)

lemma backtrack_loop_keeps_num_active:
  "backtrack_loop k s = Inr s1 \<Longrightarrow> map num_active (model s1) = map num_active (model s)"
proof (induction k s rule: backtrack_loop.induct)
  case (1 k s)
  show ?case
  proof (cases "stopped k s")
    case True
    with "1.prems" stopped_loop [OF True] show ?thesis by simp
  next
    case False
    from "1.prems" False obtain s2 where
      u: "unassign s (sequence s ! nat (head s)) = Inr s2" and
      l: "backtrack_loop k (s2\<lparr>head := head s - 1\<rparr>) = Inr s1" and
      r: "head s < int (length (sequence s))" and h: "0 \<le> head s"
      by (rule loop_step)
    from "1.prems" False have c: "k < dec_level (model s ! (sequence s ! nat (head s)))"
      by (simp add: not_stopped_iff)
    from "1.prems" h r c have m: "sequence s ! nat (head s) < length (model s)"
      by (auto simp: backtrack_loop.simps [of k s] split: if_splits)
    from u have fr: "head s2 = head s" by (simp add: unassign_frame)
    from l fr have "backtrack_loop k (s2\<lparr>head := head s2 - 1\<rparr>) = Inr s1" by simp
    with "1.IH" [of s2] h r m c u
    have "map num_active (model s1) = map num_active (model (s2\<lparr>head := head s2 - 1\<rparr>))"
      by simp
    with unassign_keeps_num_active [OF u] show ?thesis by simp
  qed
qed

lemma CDCL_repair_conflict_keeps_num_active:
  assumes "CDCL_repair_conflict s = Inr s1"
  shows "map num_active (model s1) = map num_active (model s)"
proof -
  let ?s0 = "s\<lparr>num_conflicts := num_conflicts s + 1\<rparr>"
  from assms obtain sa sb where
    a: "(if cur_dec_level ?s0 \<noteq> 1 then learn_clause ?s0 else Inr ?s0) = Inr sa" and
    b: "backtrack (cur_dec_level sa - 1) sa = Inr sb" and
    q: "trail_queue_lit sb (get_comp_lit sb (sequence sb ! nat (head sb))) CON_ASS = Inr s1"
    by (auto simp: CDCL_repair_conflict_def Let_def split: if_splits sum.splits)
  from a have "map num_active (model sa) = map num_active (model s)"
    by (auto split: if_splits dest: learn_clause_keeps_num_active)
  moreover from b have "map num_active (model sb) = map num_active (model sa)"
    by (auto simp: backtrack_def split: sum.splits dest: backtrack_loop_keeps_num_active)
  moreover from q have "map num_active (model s1) = map num_active (model sb)"
    by (rule trail_queue_lit_keeps_num_active)
  ultimately show ?thesis by simp
qed

section \<open>Where the code departs from the specification\<close>

text \<open>
  The theorems of this section run the code on small formulas, for every content of the
  uninitialised memory (\<open>mem\<close>, \<open>tmem\<close>). Literals are offsets: over three variables
  1, 2, 3 are 0, 1, 2 and -1, -2, -3 are 3, 4, 5; over two variables 1, 2 are 0, 1 and
  -1, -2 are 2, 3.
\<close>

text \<open>
  Claim C1 says that a propagator step that exits without conflict visits every non-null
  clause of the watch list, and that handling a clause by extinction does not end the
  scan. The code leaves the clause loop by \<open>break\<close> there. On \<open>p cnf 3 4\<close>,
  \<open>2 0\<close>, \<open>1 0\<close>, \<open>2 -1 0\<close>, \<open>3 -1 0\<close> the step on literal 1 finds both clauses in
  the watch list, handles \<open>(2 -1)\<close> by extinction (2 is at level 0) and stops:
  \<open>(3 -1)\<close> is not touched (a visit would first swap its two literals), 3 is not queued,
  and the new watch list is empty.
\<close>

theorem prop_step_break_after_extinction:
  "(case CDCL_init mem tmem 3 [[2], [1], [2, - 1], [3, - 1]] of
      Inl e \<Rightarrow> False
    | Inr s0 \<Rightarrow>
       (case prop_step s0 of
          Inl e \<Rightarrow> False
        | Inr (s1, c1) \<Rightarrow>
           sequence s1 ! nat (head s1) = 0
           \<and> watched_lits (model s1 ! 0) = [Some (Cnf_clause 0), Some (Cnf_clause 1)]
           \<and> cnf s1 = [[1, 3], [2, 3]]
           \<and> (case prop_step s1 of
                 Inl e \<Rightarrow> False
               | Inr (s2, c2) \<Rightarrow>
                  \<not> c2 \<and> cnf s2 = [[3, 1], [2, 3]] \<and> watched_lits (model s2 ! 0) = []
                  \<and> ass_status (model s2 ! 2) = AVAILABLE \<and> head s2 = 2 \<and> tail s2 = 2)))"
  by (simp add: run_defs)

text \<open>
  Claim C2 says that on a conflict at position \<open>i\<close> the new watch list is the clauses
  kept so far followed by the old entries after position \<open>i\<close>. The copying loop pushes
  the current clause once for each of them instead. On \<open>p cnf 3 2\<close>, \<open>-1 2 0\<close>,
  \<open>-1 3 0\<close> the decision 1 is propagated over the list of the clauses 0 and 1, the
  conflict is found at clause 0, and the list that returns holds clause 0 twice.
\<close>

theorem conflict_copies_current_clause:
  "(case drive 1 (CDCL_init mem tmem 3 [[- 1, 2], [- 1, 3]]) of
      Inl e \<Rightarrow> False
    | Inr s \<Rightarrow>
       sequence s ! nat (head s) = 0
       \<and> watched_lits (model s ! 0) = [Some (Cnf_clause 0), Some (Cnf_clause 1)]
       \<and> (case prop_step s of
             Inl e \<Rightarrow> False
           | Inr (s1, conflict) \<Rightarrow>
              conflict
              \<and> watched_lits (model s1 ! 0) = [Some (Cnf_clause 0), Some (Cnf_clause 0)]))"
  by (simp add: run_defs)

text \<open>
  Claim C5 says that the search for a replacement watcher examines the positions 2 to
  width - 1. The loop runs over the positions 0 to width - 3. On \<open>p cnf 3 1\<close>,
  \<open>1 -2 3 0\<close>, after the decisions 1 and 2, the step on literal 2 finds the clause as
  \<open>[-2, 1, 3]\<close> after the first swap; position 0 holds -2, which is \<open>PENDING\<close>, and is
  taken as the replacement. Position 2 holds 3, which is \<open>AVAILABLE\<close>: it is not moved
  to position 0 and the clause is not added to the watch list of -3.
\<close>

theorem candidate_search_starts_at_0:
  "(case drive 3 (CDCL_init mem tmem 3 [[1, - 2, 3]]) of
      Inl e \<Rightarrow> False
    | Inr s \<Rightarrow>
       sequence s ! nat (head s) = 1 \<and> cnf s = [[0, 4, 2]]
       \<and> watched_lits (model s ! 1) = [Some (Cnf_clause 0)]
       \<and> ass_status (model s ! 2) = AVAILABLE
       \<and> (case prop_step s of
             Inl e \<Rightarrow> False
           | Inr (s1, conflict) \<Rightarrow>
              \<not> conflict \<and> cnf s1 = [[4, 0, 2]]
              \<and> watched_lits (model s1 ! 1) = [] \<and> watched_lits (model s1 ! 5) = []
              \<and> ass_status (model s1 ! 2) = AVAILABLE))"
  by (simp add: run_defs)

text \<open>
  Claim C3 says that \<open>unassign\<close> sets both decision levels to \<open>DEC_MAX\<close> and both
  statuses to \<open>AVAILABLE\<close>, so that \<open>backtrack\<close> leaves every literal above the new
  level \<open>AVAILABLE\<close>. The code sets the levels only. In the conflict at level 2 of
  \<open>p cnf 2 1\<close>, \<open>-2 1 0\<close>, the literal 2 (level 2) keeps the status \<open>PENDING\<close>
  through \<open>unassign\<close> and through \<open>backtrack(1)\<close>.
\<close>

theorem unassign_keeps_PENDING:
  "(case drive 4 (CDCL_init mem tmem 2 [[- 2, 1]]) of
      Inl e \<Rightarrow> False
    | Inr s \<Rightarrow>
       state s = CONFLICT \<and> sequence s ! nat (head s) = 1
       \<and> dec_level (model s ! 1) = 2
       \<and> (case unassign s 1 of
             Inl e \<Rightarrow> False
           | Inr s1 \<Rightarrow>
              dec_level (model s1 ! 1) = DEC_MAX \<and> dec_level (model s1 ! 3) = DEC_MAX
              \<and> ass_status (model s1 ! 1) = PENDING \<and> ass_status (model s1 ! 3) = PENDING)
       \<and> (case backtrack 1 s of
             Inl e \<Rightarrow> False
           | Inr s2 \<Rightarrow>
              dec_level (model s2 ! 1) = DEC_MAX
              \<and> ass_status (model s2 ! 1) = PENDING \<and> ass_status (model s2 ! 3) = PENDING))"
  by (simp add: run_defs)

text \<open>
  Claim C4 says that when \<open>CDCL_decide\<close> finds no \<open>AVAILABLE\<close> variable, every variable
  is assigned. On \<open>p cnf 2 2\<close>, \<open>-2 1 0\<close>, \<open>2 1 0\<close> the driver reaches, after eight
  rounds, a state in which \<open>CDCL_decide\<close> returns \<open>SUCCESS\<close> from its loop (the trail
  holds one literal, -1) and SAT is reported, while the variable 2 carries \<open>DEC_MAX\<close>:
  it was unassigned by \<open>backtrack\<close> and kept the status \<open>PENDING\<close>. Both literals of
  the clause \<open>(2 1)\<close> carry the truth value \<open>NEGATIVE\<close>.
\<close>

theorem decide_reports_SAT_with_unassigned_variable:
  "(case drive 8 (CDCL_init mem tmem 2 [[- 2, 1], [2, 1]]) of
      Inl e \<Rightarrow> False
    | Inr s \<Rightarrow>
       state s = DECIDE \<and> CDCL_decide s = Inr (s, SUCCESS) \<and> driver_step s = Inl Exit_SAT
       \<and> head s = 1 \<and> tail s = 1 \<and> sequence s ! 0 = 2
       \<and> ass_status (model s ! 0) = PENDING \<and> ass_status (model s ! 1) = PENDING
       \<and> dec_level (model s ! 1) = DEC_MAX \<and> dec_level (model s ! 3) = DEC_MAX
       \<and> cnf s ! 1 = [0, 1]
       \<and> truth_value (model s ! 0) = NEGATIVE \<and> truth_value (model s ! 1) = NEGATIVE)"
  by (simp add: run_defs)

text \<open>
  Claim C6 says that \<open>num_active\<close> of a literal counts the clauses of the store, original
  and learned, that contain it. \<open>CDCL_init\<close> counts the literals of the clauses it
  stores; \<open>CDCL_repair_conflict\<close> does not. On \<open>p cnf 2 1\<close>, \<open>-2 1 0\<close> the conflict at
  level 2 learns the clause \<open>(-2 -1)\<close>; afterwards the learned store has one entry and
  the counters are as before: 0 for -1 and 1 for -2.
\<close>

theorem learned_clause_not_counted:
  "(case drive 4 (CDCL_init mem tmem 2 [[- 2, 1]]) of
      Inl e \<Rightarrow> False
    | Inr s \<Rightarrow>
       state s = CONFLICT \<and> cur_dec_level s = 2 \<and> learned_lits s = Inr [Some 3, Some 2]
       \<and> learned_cnf s = [] \<and> cnf s = [[0, 3]]
       \<and> num_active (model s ! 2) = 0 \<and> num_active (model s ! 3) = 1
       \<and> (case CDCL_repair_conflict s of
             Inl e \<Rightarrow> False
           | Inr s1 \<Rightarrow>
              learned_cnf s1 = [Some Learned_local] \<and> cnf s1 = [[0, 3]]
              \<and> num_active (model s1 ! 2) = 0 \<and> num_active (model s1 ! 3) = 1))"
  by (simp add: run_defs replicate_numeral_unfold)

text \<open>
  Claim C7 says that conflict repair appends the learned clause to the learned store and
  to two watch lists. What the code appends is the address of its local variable
  \<open>learned_clause\<close>, which is dead when the function returns. In the example of C6 the
  three lists hold that address after the repair, nothing can be read through it, and a
  propagator that reaches the entry in the watch list of literal 2 has no clause to read.
\<close>

theorem learned_clause_is_a_dead_local:
  "(case drive 5 (CDCL_init mem tmem 2 [[- 2, 1]]) of
      Inl e \<Rightarrow> False
    | Inr s \<Rightarrow>
       learned_cnf s = [Some Learned_local]
       \<and> watched_lits (model s ! 1) = [Some (Cnf_clause 0), Some Learned_local]
       \<and> watched_lits (model s ! 0) = [Some Learned_local]
       \<and> deref s Learned_local = Inl Undefined
       \<and> prop_clause s 1 [] 1 2 = Inl Undefined)"
  by (simp add: run_defs)

end
